theory Spec2Isabelle
  imports Main
begin

section \<open>The DNS service of amass (src/amass/dns.go)\<close>

text \<open>
  A shallow embedding of the resolver pool, the query engine, the wildcard detector and
  the request pipeline of \<^verbatim>\<open>dns.go\<close>. The network and the random number generator are
  the environment of the program: every call of \<^verbatim>\<open>recon.ResolveDNS\<close> is answered by an
  oracle that sees the number of queries issued so far (so the same question may be
  answered differently at different times), and every call of \<^verbatim>\<open>rand.Int\<close> reads the
  next element of a sequence. The program state that the functions thread through is
  the log of the queries issued, the position in the random sequence and the global
  \<^verbatim>\<open>usableServers\<close>. A Go run-time panic is a value of type \<open>panic\<close>.
\<close>

subsection \<open>Constants\<close>

definition maxNameLen :: int where
  "maxNameLen = 253"

definition maxLabelLen :: int where
  "maxLabelLen = 63"

definition ldhChars :: string where
  "ldhChars = ''abcdefghijklmnopqrstuvwxyz0123456789-''"

definition knownPublicServers :: "string list" where
  "knownPublicServers =
     [''8.8.8.8:53'', ''64.6.64.6:53'', ''9.9.9.9:53'', ''84.200.69.80:53'',
      ''8.26.56.26:53'', ''208.67.222.222:53'', ''195.46.39.39:53'',
      ''69.195.152.204:53'', ''216.146.35.35:53'', ''37.235.1.174:53'',
      ''198.101.242.72:53'', ''77.88.8.8:53'', ''91.239.100.100:53'',
      ''74.82.42.42:53'', ''156.154.70.1:53'', ''8.8.4.4:53'',
      ''149.112.112.112:53'', ''84.200.70.40:53'', ''8.20.247.20:53'',
      ''208.67.220.220:53'', ''195.46.39.40:53'', ''216.146.36.36:53'',
      ''77.88.8.1:53'', ''89.233.43.71:53'', ''156.154.71.1:53'']"

subsection \<open>Data\<close>

text \<open>
  \<^verbatim>\<open>recon.DNSAnswer\<close> (fields Name, Type, TTL, Data) and \<^verbatim>\<open>AmassRequest\<close> (fields Name,
  Domain, Address, Tag, Source) both have a field \<^verbatim>\<open>Name\<close>; the fields carry the
  prefixes \<open>ans\<close> and \<open>req\<close> here.
\<close>

record DNSAnswer =
  ansName :: string
  ansType :: nat
  ansTTL :: nat
  ansData :: string

text \<open>
  Modelled from the spec: the tags of a request, declared outside \<^verbatim>\<open>dns.go\<close>; the spec
  lists the closed set SEARCH, DNS, BRUTE, ALT, ARCHIVE, CERT, SCRAPE.
\<close>

datatype tag = SEARCH | DNS | BRUTE | ALT | ARCHIVE | CERT | SCRAPE

record AmassRequest =
  reqName :: string
  reqDomain :: string
  reqAddress :: string
  reqTag :: tag
  reqSource :: string

datatype query = Query (qname: string) (qserver: string) (qtype: string)

datatype panic = IndexOutOfRange | DivideByZero | NilDereference

record env =
  net :: "nat \<Rightarrow> query \<Rightarrow> DNSAnswer list option"
  rnd :: "nat \<Rightarrow> nat"

record world =
  queries :: "query list"
  rpos :: nat
  usableServers :: "string list"

subsection \<open>The environment: resolver library and random numbers\<close>

text \<open>
  Modelled from the spec: the DNS library \<^verbatim>\<open>recon.ResolveDNS(name, server, qtype)\<close>, which
  returns answers or an error (\<open>None\<close>). The call is logged; the oracle \<open>net e\<close> answers
  it from the number of earlier queries and the query itself.
\<close>

definition ResolveDNS ::
  "env \<Rightarrow> string \<Rightarrow> string \<Rightarrow> string \<Rightarrow> world \<Rightarrow> DNSAnswer list option \<times> world" where
  "ResolveDNS e name server qt s =
     (net e (length (queries s)) (Query name server qt),
      s\<lparr>queries := queries s @ [Query name server qt]\<rparr>)"

text \<open>\<^verbatim>\<open>rand.Int()\<close>: the next non-negative number of the sequence.\<close>

definition rand_Int :: "env \<Rightarrow> world \<Rightarrow> nat \<times> world" where
  "rand_Int e s = (rnd e (rpos s), s\<lparr>rpos := rpos s + 1\<rparr>)"

subsection \<open>Query engine\<close>

text \<open>
  \<^verbatim>\<open>recursiveCNAME\<close>: the loop \<^verbatim>\<open>for i := 0; i < 10; i++\<close>. The read \<^verbatim>\<open>a[0]\<close> of an empty
  answer list is Go's index-out-of-range panic.
\<close>

function cname_loop ::
  "env \<Rightarrow> string \<Rightarrow> nat \<Rightarrow> DNSAnswer list \<Rightarrow> string \<Rightarrow> world
     \<Rightarrow> (panic + DNSAnswer list \<times> string) \<times> world" where
  "cname_loop e server i answers name s =
     (if i < 10 then
        (case ResolveDNS e name server ''CNAME'' s of
           (None, s1) \<Rightarrow> (Inr (answers, name), s1)
         | (Some a, s1) \<Rightarrow>
             (case a of
                [] \<Rightarrow> (Inl IndexOutOfRange, s1)
              | a0 # _ \<Rightarrow> cname_loop e server (i + 1) (answers @ [a0]) (ansData a0) s1))
      else (Inr (answers, name), s))"
  by pat_completeness auto
termination
  by (relation "measure (\<lambda>(e, server, i, answers, name, s). 10 - i)") auto

declare cname_loop.simps [simp del]

definition recursiveCNAME ::
  "env \<Rightarrow> string \<Rightarrow> string \<Rightarrow> world \<Rightarrow> (panic + DNSAnswer list \<times> string) \<times> world" where
  "recursiveCNAME e name server s = cname_loop e server 0 [] name s"

text \<open>
  \<^verbatim>\<open>dnsQuery\<close>: the CNAME walk, then an A and an AAAA query for the final name. The
  Go function returns \<^verbatim>\<open>(answers, error)\<close>; the error is \<open>Inl\<close> of its message.
\<close>

definition dnsQuery ::
  "env \<Rightarrow> string \<Rightarrow> string \<Rightarrow> string \<Rightarrow> world
     \<Rightarrow> (panic + (string + DNSAnswer list)) \<times> world" where
  "dnsQuery e domain name server s =
     (case recursiveCNAME e name server s of
        (Inl p, s1) \<Rightarrow> (Inl p, s1)
      | (Inr (answers, name'), s1) \<Rightarrow>
          (case ResolveDNS e name' server ''A'' s1 of
             (ra, s2) \<Rightarrow>
               let (answers1, resolved1) =
                     (case ra of Some ans \<Rightarrow> (answers @ ans, True) | None \<Rightarrow> (answers, False))
               in (case ResolveDNS e name' server ''AAAA'' s2 of
                     (rb, s3) \<Rightarrow>
                       let (answers2, resolved2) =
                             (case rb of Some ans \<Rightarrow> (answers1 @ ans, True)
                              | None \<Rightarrow> (answers1, resolved1))
                       in if \<not> resolved2
                          then (Inr (Inl ''No A or AAAA records resolved for the name''), s3)
                          else (Inr (Inr answers2), s3))))"

subsection \<open>Resolver pool\<close>

text \<open>\<^verbatim>\<open>testPublicServers\<close>: the loop over \<^verbatim>\<open>knownPublicServers\<close>, appending to \<^verbatim>\<open>working\<close>.\<close>

fun testPublicServers_loop ::
  "env \<Rightarrow> string list \<Rightarrow> string list \<Rightarrow> world \<Rightarrow> string list \<times> world" where
  "testPublicServers_loop e [] working s = (working, s)"
| "testPublicServers_loop e (server # rest) working s =
     (case ResolveDNS e ''google.com'' server ''A'' s of
        (None, s1) \<Rightarrow> testPublicServers_loop e rest working s1
      | (Some _, s1) \<Rightarrow> testPublicServers_loop e rest (working @ [server]) s1)"

definition testPublicServers :: "env \<Rightarrow> world \<Rightarrow> string list \<times> world" where
  "testPublicServers e s = testPublicServers_loop e knownPublicServers [] s"

text \<open>\<^verbatim>\<open>init\<close>: stores the result in the global; it has no error result.\<close>

definition init_pool :: "env \<Rightarrow> world \<Rightarrow> world" where
  "init_pool e s =
     (case testPublicServers e s of (working, s1) \<Rightarrow> s1\<lparr>usableServers := working\<rparr>)"

text \<open>
  \<^verbatim>\<open>NextNameserver\<close>: \<^verbatim>\<open>num % len(usableServers)\<close> is Go's integer-divide-by-zero panic
  when the list is empty.
\<close>

definition NextNameserver :: "env \<Rightarrow> world \<Rightarrow> (panic + string) \<times> world" where
  "NextNameserver e s =
     (case rand_Int e s of
        (num, s1) \<Rightarrow>
          if length (usableServers s1) = 0 then (Inl DivideByZero, s1)
          else (Inr (usableServers s1 ! (num mod length (usableServers s1))), s1))"

subsection \<open>Strings\<close>

text \<open>
  \<^verbatim>\<open>strings.Split(s, ".")\<close> (the separator is a single byte at both call sites),
  \<^verbatim>\<open>strings.Join\<close> and \<^verbatim>\<open>strings.HasSuffix\<close>. Splitting the empty string gives one
  empty field.
\<close>

fun Split :: "string \<Rightarrow> char \<Rightarrow> string list" where
  "Split [] sep = [[]]"
| "Split (c # cs) sep =
     (if c = sep then [] # Split cs sep
      else (case Split cs sep of
              [] \<Rightarrow> [[c]]
            | f # fs \<Rightarrow> (c # f) # fs))"

fun Join :: "string list \<Rightarrow> string \<Rightarrow> string" where
  "Join [] sep = []"
| "Join [x] sep = x"
| "Join (x # y # ys) sep = x @ sep @ Join (y # ys) sep"

definition HasSuffix :: "string \<Rightarrow> string \<Rightarrow> bool" where
  "HasSuffix s suffix' =
     (length s \<ge> length suffix' \<and> drop (length s - length suffix') s = suffix')"

text \<open>
  Modelled from the spec: \<^verbatim>\<open>trim252F\<close>, defined outside \<^verbatim>\<open>dns.go\<close>; it strips any leading
  URL-encoded forward slash (\<^verbatim>\<open>%2F\<close>, case-insensitive). The functions of the pipeline
  take the normalisation as a parameter; this definition instantiates it.
\<close>

fun trim252F :: "string \<Rightarrow> string" where
  "trim252F (a # b # c # rest) =
     (if a = CHR ''%'' \<and> b = CHR ''2'' \<and> (c = CHR ''F'' \<or> c = CHR ''f'')
      then trim252F rest else a # b # c # rest)"
| "trim252F s = s"


subsection \<open>Unlikely names\<close>

text \<open>
  \<^verbatim>\<open>rand.Shuffle(n, swap)\<close> of Go's standard library walks \<^verbatim>\<open>i\<close> from \<^verbatim>\<open>n - 1\<close> down to 1,
  draws \<^verbatim>\<open>j\<close> in \<^verbatim>\<open>[0, i]\<close> and calls \<^verbatim>\<open>swap(i, j)\<close>; the swap is the closure of
  \<^verbatim>\<open>unlikelyName\<close>, which exchanges \<^verbatim>\<open>ldh[i]\<close> and \<^verbatim>\<open>ldh[j]\<close>.
\<close>

fun Shuffle_loop :: "env \<Rightarrow> nat \<Rightarrow> string \<Rightarrow> world \<Rightarrow> string \<times> world" where
  "Shuffle_loop e 0 ldh s = (ldh, s)"
| "Shuffle_loop e (Suc k) ldh s =
     (case rand_Int e s of
        (r, s1) \<Rightarrow>
          let i = Suc k; j = r mod (i + 1)
          in Shuffle_loop e k (ldh[i := ldh ! j, j := ldh ! i]) s1)"

definition Shuffle :: "env \<Rightarrow> nat \<Rightarrow> string \<Rightarrow> world \<Rightarrow> string \<times> world" where
  "Shuffle e n ldh s = Shuffle_loop e (n - 1) ldh s"

text \<open>
  The loop \<^verbatim>\<open>for i := 0; i < l; i++\<close> of \<^verbatim>\<open>unlikelyName\<close>: a hyphen drawn at the first
  or the last index is skipped by \<^verbatim>\<open>continue\<close>, which still advances \<^verbatim>\<open>i\<close>.
\<close>

function label_loop ::
  "env \<Rightarrow> string \<Rightarrow> nat \<Rightarrow> nat \<Rightarrow> string \<Rightarrow> world \<Rightarrow> string \<times> world" where
  "label_loop e ldh l i newlabel s =
     (if i < l then
        (case rand_Int e s of
           (r, s1) \<Rightarrow>
             let sel = r mod length ldh
             in if (i = 0 \<or> i = l - 1) \<and> ldh ! sel = CHR ''-''
                then label_loop e ldh l (i + 1) newlabel s1
                else label_loop e ldh l (i + 1) (newlabel @ [ldh ! sel]) s1)
      else (newlabel, s))"
  by pat_completeness auto
termination
  by (relation "measure (\<lambda>(e, ldh, l, i, newlabel, s). l - i)") auto

declare label_loop.simps [simp del]

definition unlikelyName :: "env \<Rightarrow> string \<Rightarrow> world \<Rightarrow> string \<times> world" where
  "unlikelyName e sub s =
     (let l0 = maxNameLen - int (length sub);
          l = (if l0 > maxLabelLen then maxLabelLen div 2 else l0)
      in if \<not> l0 > maxLabelLen \<and> l0 < 1 then ([], s)
         else (case Shuffle e (length ldhChars) ldhChars s of
                 (ldh, s1) \<Rightarrow>
                   (case label_loop e ldh (nat l) 0 [] s1 of
                      (newlabel, s2) \<Rightarrow>
                        if newlabel = [] then (newlabel, s2)
                        else (newlabel @ ''.'' @ sub, s2))))"

subsection \<open>Wildcard detection\<close>

text \<open>
  Modelled from the spec: the string-set utility \<^verbatim>\<open>stringset.StringSet\<close> is a set of
  strings with \<^verbatim>\<open>Add\<close>, \<^verbatim>\<open>Contains\<close>, \<^verbatim>\<open>Empty\<close> and \<^verbatim>\<open>Equal\<close>; a nil pointer to one is
  \<open>None\<close>.
\<close>

definition answersToStringSet :: "DNSAnswer list \<Rightarrow> string set" where
  "answersToStringSet answers = foldl (\<lambda>ss a. insert (ansData a) ss) {} answers"

definition checkForWildcard ::
  "env \<Rightarrow> string \<Rightarrow> string \<Rightarrow> string \<Rightarrow> world \<Rightarrow> (panic + string set option) \<times> world" where
  "checkForWildcard e sub root server s =
     (case unlikelyName e sub s of
        (name, s1) \<Rightarrow>
          if name \<noteq> [] then
            (case dnsQuery e root name server s1 of
               (Inl p, s2) \<Rightarrow> (Inl p, s2)
             | (Inr (Inl err), s2) \<Rightarrow> (Inr None, s2)
             | (Inr (Inr ans), s2) \<Rightarrow> (Inr (Some (answersToStringSet ans)), s2))
          else (Inr None, s1))"

definition wildcardDetection ::
  "env \<Rightarrow> string \<Rightarrow> string \<Rightarrow> world \<Rightarrow> (panic + string set option) \<times> world" where
  "wildcardDetection e sub root s =
     (case NextNameserver e s of
        (Inl p, s0) \<Rightarrow> (Inl p, s0)
      | (Inr server, s0) \<Rightarrow>
          (case checkForWildcard e sub root server s0 of
             (Inl p, s1) \<Rightarrow> (Inl p, s1)
           | (Inr None, s1) \<Rightarrow> (Inr None, s1)
           | (Inr (Some ss1), s1) \<Rightarrow>
               (case checkForWildcard e sub root server s1 of
                  (Inl p, s2) \<Rightarrow> (Inl p, s2)
                | (Inr None, s2) \<Rightarrow> (Inr None, s2)
                | (Inr (Some ss2), s2) \<Rightarrow>
                    (case checkForWildcard e sub root server s2 of
                       (Inl p, s3) \<Rightarrow> (Inl p, s3)
                     | (Inr None, s3) \<Rightarrow> (Inr None, s3)
                     | (Inr (Some ss3), s3) \<Rightarrow>
                         if ss1 \<noteq> {} \<and> (ss1 = ss2 \<and> ss2 = ss3)
                         then (Inr (Some ss1), s3)
                         else (Inr None, s3)))))"

record dnsWildcard =
  HasWildcard :: bool
  Answers :: "string set option"

type_synonym cache = "string \<Rightarrow> dnsWildcard option"

text \<open>
  The loop \<^verbatim>\<open>for i := len(labels) - base; i > 0; i--\<close> of \<^verbatim>\<open>matchesWildcard\<close>, with the map
  \<^verbatim>\<open>wildcards\<close> passed through. \<^verbatim>\<open>w.Answers.Contains(ip)\<close> on a nil set is a nil
  dereference; the entries the loop itself stores never reach it.
\<close>

fun wildcard_loop ::
  "env \<Rightarrow> string \<Rightarrow> string \<Rightarrow> string list \<Rightarrow> nat \<Rightarrow> bool \<Rightarrow> cache \<Rightarrow> world
     \<Rightarrow> (panic + bool \<times> cache) \<times> world" where
  "wildcard_loop e root ip labels 0 answer wildcards s = (Inr (answer, wildcards), s)"
| "wildcard_loop e root ip labels (Suc k) answer wildcards s =
     (let i = Suc k; sub = Join (drop i labels) ''.''
      in case (case wildcards sub of
                 Some w \<Rightarrow> (Inr (w, wildcards), s)
               | None \<Rightarrow>
                   (case wildcardDetection e sub root s of
                      (Inl p, s1) \<Rightarrow> (Inl p, s1)
                    | (Inr r, s1) \<Rightarrow>
                        let entry = (case r of
                                       Some ss \<Rightarrow> \<lparr>HasWildcard = True, Answers = Some ss\<rparr>
                                     | None \<Rightarrow> \<lparr>HasWildcard = False, Answers = None\<rparr>)
                        in (Inr (entry, wildcards(sub \<mapsto> entry)), s1))) of
           (Inl p, s1) \<Rightarrow> (Inl p, s1)
         | (Inr (w, wildcards'), s1) \<Rightarrow>
             if HasWildcard w then
               (case Answers w of
                  None \<Rightarrow> (Inl NilDereference, s1)
                | Some ss \<Rightarrow>
                    wildcard_loop e root ip labels k (if ip \<in> ss then True else answer)
                      wildcards' s1)
             else wildcard_loop e root ip labels k answer wildcards' s1)"

definition matchesWildcard ::
  "env \<Rightarrow> string \<Rightarrow> string \<Rightarrow> string \<Rightarrow> cache \<Rightarrow> world \<Rightarrow> (panic + bool \<times> cache) \<times> world" where
  "matchesWildcard e name root ip wildcards s =
     (let base = length (Split root CHR ''.'');
          labels = Split name CHR ''.''
      in wildcard_loop e root ip labels (length labels - base) False wildcards s)"

subsection \<open>Request pipeline\<close>





text \<open>
  \<^verbatim>\<open>processRequests\<close>: the \<^verbatim>\<open>select\<close> loop, run over the sequence of events that the
  channels deliver. \<open>dispatched\<close> logs the requests handed to \<^verbatim>\<open>performDNSRequest\<close>.
\<close>

datatype event = Input AmassRequest | Tick | Check | Quit

record pipeline =
  queue :: "AmassRequest list"
  filter' :: "string set"
  active :: bool
  dispatched :: "AmassRequest list"

fun processRequests :: "(string \<Rightarrow> string) \<Rightarrow> event list \<Rightarrow> pipeline \<Rightarrow> pipeline" where
  "processRequests trim [] p = p"
| "processRequests trim (Input add # evs) p =
     (let add' = add\<lparr>reqName := trim (reqName add)\<rparr>
      in if reqName add' \<noteq> [] \<and> reqName add' \<notin> filter' p
         then processRequests trim evs
                (p\<lparr>filter' := insert (reqName add') (filter' p),
                   queue := queue p @ [add'], active := True\<rparr>)
         else processRequests trim evs p)"
| "processRequests trim (Tick # evs) p =
     (if length (queue p) > 0 then
        let next = hd (queue p);
            p1 = (if reqDomain next \<noteq> [] then p\<lparr>dispatched := dispatched p @ [next]\<rparr> else p);
            p2 = (if length (queue p1) > 1 then p1\<lparr>queue := tl (queue p1)\<rparr>
                  else p1\<lparr>queue := []\<rparr>)
        in processRequests trim evs p2
      else processRequests trim evs p)"
| "processRequests trim (Check # evs) p =
     (if length (queue p) = 0 then processRequests trim evs (p\<lparr>active := False\<rparr>)
      else processRequests trim evs p)"
| "processRequests trim (Quit # evs) p = p"

definition start_pipeline :: pipeline where
  "start_pipeline = \<lparr>queue = [], filter' = {}, active = False, dispatched = []\<rparr>"

subsection \<open>Observations on a run\<close>

text \<open>The queries a call issued: what the log gained between two states.\<close>

definition issued :: "world \<Rightarrow> world \<Rightarrow> query list" where
  "issued s s' = drop (length (queries s)) (queries s')"

text \<open>
  What a run of the CNAME loop with at most \<open>b\<close> iterations leaves behind, read off the
  log \<open>qs\<close> of its queries (the first of them is query number \<open>n\<close>): a panic comes
  from a last query answered by a success with no answers, after successes that had
  one; a return comes with one recorded answer per successful query, the first
  element of what the oracle gave, and a failed last query when the bound was not
  reached.
\<close>

definition cname_run ::
  "env \<Rightarrow> string \<Rightarrow> nat \<Rightarrow> DNSAnswer list \<Rightarrow> string \<Rightarrow> nat \<Rightarrow> query list
     \<Rightarrow> (panic + DNSAnswer list \<times> string) \<Rightarrow> bool" where
  "cname_run e server b answers name n qs r =
     (length qs \<le> b \<and>
      (\<forall>q \<in> set qs. qtype q = ''CNAME'' \<and> qserver q = server) \<and>
      (case r of
         Inl p \<Rightarrow> p = IndexOutOfRange \<and>
           (\<exists>m. length qs = Suc m \<and> net e (n + m) (qs ! m) = Some [] \<and>
                (\<forall>k<m. \<exists>a as. net e (n + k) (qs ! k) = Some (a # as)))
       | Inr (answers', name') \<Rightarrow>
           (\<exists>new. answers' = answers @ new \<and>
              (\<forall>k<length new. \<exists>rest. net e (n + k) (qs ! k) = Some (new ! k # rest)) \<and>
              (if length new < b
               then length qs = Suc (length new) \<and> net e (n + length new) (qs ! length new) = None
               else length qs = length new) \<and>
              name' = (if new = [] then name else ansData (last new)))))"

text \<open>
  The requests that the input channel delivers before the quit signal, and those of
  them that the dedup filter admits when it starts with the names \<open>seen\<close>: the first
  request of every non-empty normalised name, with the name normalised.
\<close>

fun inputs :: "event list \<Rightarrow> AmassRequest list" where
  "inputs [] = []"
| "inputs (Input add # evs) = add # inputs evs"
| "inputs (Quit # evs) = []"
| "inputs (ev # evs) = inputs evs"

fun admitted :: "(string \<Rightarrow> string) \<Rightarrow> string set \<Rightarrow> AmassRequest list \<Rightarrow> AmassRequest list" where
  "admitted trim seen [] = []"
| "admitted trim seen (add # rest) =
     (if trim (reqName add) \<noteq> [] \<and> trim (reqName add) \<notin> seen
      then add\<lparr>reqName := trim (reqName add)\<rparr>
             # admitted trim (insert (trim (reqName add)) seen) rest
      else admitted trim seen rest)"

text \<open>
  The count in the words of the specification: the distinct non-empty normalised
  names whose request carries a non-empty domain that the name ends in.
\<close>

definition spec_dispatch_names :: "(string \<Rightarrow> string) \<Rightarrow> AmassRequest list \<Rightarrow> string list" where
  "spec_dispatch_names trim rs =
     remdups (map (\<lambda>r. trim (reqName r))
       (filter (\<lambda>r. trim (reqName r) \<noteq> [] \<and> reqDomain r \<noteq> [] \<and>
                     HasSuffix (trim (reqName r)) (reqDomain r)) rs))"


text \<open>The cache holds a Positive entry for \<open>sub\<close> whose answer set contains \<open>ip\<close>.\<close>

definition entry_matches :: "cache \<Rightarrow> string \<Rightarrow> string \<Rightarrow> bool" where
  "entry_matches wildcards sub ip =
     (case wildcards sub of
        None \<Rightarrow> False
      | Some w \<Rightarrow> HasWildcard w \<and> (case Answers w of None \<Rightarrow> False | Some ss \<Rightarrow> ip \<in> ss))"

text \<open>
  The entry that \<^verbatim>\<open>matchesWildcard\<close> builds from what detection returned: Positive with
  the answer set, or Negative with no set.
\<close>

definition entry_of :: "string set option \<Rightarrow> dnsWildcard" where
  "entry_of x =
     (case x of
        Some ss \<Rightarrow> \<lparr>HasWildcard = True, Answers = Some ss\<rparr>
      | None \<Rightarrow> \<lparr>HasWildcard = False, Answers = None\<rparr>)"

text \<open>
  The suffixes that the loop of \<^verbatim>\<open>matchesWildcard\<close> visits, in its order: \<^verbatim>\<open>labels[i:]\<close>
  joined, for \<^verbatim>\<open>i\<close> from \<^verbatim>\<open>len(labels) - base\<close> down to 1.
\<close>

definition path_subs :: "string \<Rightarrow> string \<Rightarrow> string list" where
  "path_subs name root =
     map (\<lambda>i. Join (drop i (Split name CHR ''.'')) ''.'')
       (rev [1..<Suc (length (Split name CHR ''.'') - length (Split root CHR ''.''))])"

text \<open>
  The suffixes and the match in the words of the specification: the label-path
  suffixes from the immediate parent of the name down to, but excluding, the apex.
\<close>

definition spec_strict_subs :: "string \<Rightarrow> string \<Rightarrow> string list" where
  "spec_strict_subs name root =
     map (\<lambda>i. Join (drop i (Split name CHR ''.'')) ''.'')
       [1..<length (Split name CHR ''.'') - length (Split root CHR ''.'')]"

definition spec_wildcard_match :: "cache \<Rightarrow> string \<Rightarrow> string \<Rightarrow> string \<Rightarrow> bool" where
  "spec_wildcard_match wildcards name root ip =
     list_ex (\<lambda>sub. entry_matches wildcards sub ip) (spec_strict_subs name root)"



subsection \<open>Example environments\<close>

definition world0 :: world where
  "world0 = \<lparr>queries = [], rpos = 0, usableServers = [''8.8.8.8:53'']\<rparr>"

definition rnd_zero :: "nat \<Rightarrow> nat" where
  "rnd_zero i = 0"

text \<open>A network on which every query fails.\<close>

definition net_down :: "nat \<Rightarrow> query \<Rightarrow> DNSAnswer list option" where
  "net_down n q = None"

text \<open>Every name has the A record 10.0.0.1 and nothing else (a wildcard zone).\<close>

definition net_a_only :: "nat \<Rightarrow> query \<Rightarrow> DNSAnswer list option" where
  "net_a_only n q =
     (if qtype q = ''A''
      then Some [\<lparr>ansName = qname q, ansType = 1, ansTTL = 300, ansData = ''10.0.0.1''\<rparr>]
      else None)"

text \<open>A resolver that reports success for CNAME queries with no answer in the list.\<close>

definition net_empty_cname :: "nat \<Rightarrow> query \<Rightarrow> DNSAnswer list option" where
  "net_empty_cname n q = (if qtype q = ''CNAME'' then Some [] else None)"

text \<open>Every name is an alias of itself and has an A and an AAAA record.\<close>

definition net_cname_cycle :: "nat \<Rightarrow> query \<Rightarrow> DNSAnswer list option" where
  "net_cname_cycle n q =
     (if qtype q = ''CNAME''
      then Some [\<lparr>ansName = qname q, ansType = 5, ansTTL = 300, ansData = qname q\<rparr>]
      else if qtype q = ''A''
      then Some [\<lparr>ansName = qname q, ansType = 1, ansTTL = 300, ansData = ''10.0.0.1''\<rparr>]
      else Some [\<lparr>ansName = qname q, ansType = 28, ansTTL = 300, ansData = ''::1''\<rparr>])"

text \<open>A suffix of 200 bytes, and the environment in which every random number is 0.\<close>

definition sub200 :: string where
  "sub200 = replicate 200 CHR ''a''"


text \<open>
  Random numbers under which the shuffle leaves the alphabet as it is (every swap is
  of an index with itself) and every later draw is \<open>c\<close>.
\<close>

definition rnd_keep :: "nat \<Rightarrow> nat \<Rightarrow> nat" where
  "rnd_keep c p = (if p < 36 then 36 - p else c)"

definition env_keep :: "nat \<Rightarrow> env" where
  "env_keep c = \<lparr>net = net_down, rnd = rnd_keep c\<rparr>"

text \<open>The label that \<^verbatim>\<open>unlikelyName\<close> builds under \<open>env_keep c\<close> for the length \<open>l\<close>.\<close>

definition keep_label :: "nat \<Rightarrow> nat \<Rightarrow> string" where
  "keep_label c l =
     concat (map (\<lambda>k. if (k = 0 \<or> k = l - 1) \<and> ldhChars ! (c mod 37) = CHR ''-'' then []
                        else [ldhChars ! (c mod 37)]) [0..<l])"

text \<open>Requests for the examples.\<close>

definition request :: "string \<Rightarrow> string \<Rightarrow> tag \<Rightarrow> AmassRequest" where
  "request name domain tg =
     \<lparr>reqName = name, reqDomain = domain, reqAddress = [], reqTag = tg, reqSource = ''test''\<rparr>"

text \<open>
  Three event sequences: a name that arrives twice (once with an encoded slash in
  front) and another name; a name whose first request has no domain and whose second
  has one; and a name under a domain it does not end in.
\<close>

definition events_duplicate :: "event list" where
  "events_duplicate =
     [Input (request ''a.ex.com'' ''ex.com'' BRUTE), Input (request ''%2Fa.ex.com'' ''ex.com'' ALT),
      Input (request ''b.ex.com'' ''ex.com'' BRUTE), Tick, Tick, Tick]"

definition events_shadowed :: "event list" where
  "events_shadowed =
     [Input (request ''a.com'' [] BRUTE), Input (request ''a.com'' ''a.com'' BRUTE), Tick, Tick]"

definition events_foreign :: "event list" where
  "events_foreign = [Input (request ''a.com'' ''b.org'' BRUTE), Tick]"

text \<open>
  The wildcard zone \<^verbatim>\<open>wild.com\<close> with every random number 0, and a cache that already
  holds the Positive entry of the apex.
\<close>

definition env_wild :: env where
  "env_wild = \<lparr>net = net_a_only, rnd = rnd_zero\<rparr>"

definition cache_wild :: cache where
  "cache_wild = [''wild.com'' \<mapsto> \<lparr>HasWildcard = True, Answers = Some {''10.0.0.1''}\<rparr>]"

text \<open>
  A resolver whose CNAME queries fail and whose A queries are answered with a record
  named after the alias target \<^verbatim>\<open>cdn.other.net\<close>, as a recursive resolver that chases
  the alias itself answers.
\<close>

definition net_foreign :: "nat \<Rightarrow> query \<Rightarrow> DNSAnswer list option" where
  "net_foreign n q =
     (if qtype q = ''A''
      then Some [\<lparr>ansName = ''cdn.other.net'', ansType = 1, ansTTL = 300, ansData = ''10.0.0.1''\<rparr>]
      else None)"

definition env_foreign :: env where
  "env_foreign = \<lparr>net = net_foreign, rnd = rnd_zero\<rparr>"

section \<open>Query engine: the CNAME walk and the lookup\<close>

lemma ResolveDNS_world:
  "ResolveDNS e name server qt s = (r, s') \<Longrightarrow>
     queries s' = queries s @ [Query name server qt] \<and> rpos s' = rpos s \<and>
     usableServers s' = usableServers s \<and> net e (length (queries s)) (Query name server qt) = r"
  by (auto simp: ResolveDNS_def)

lemma cname_loop_run:
  "cname_loop e server i answers name s = (r, s') \<Longrightarrow>
     \<exists>qs. queries s' = queries s @ qs \<and> rpos s' = rpos s \<and> usableServers s' = usableServers s \<and>
          cname_run e server (10 - i) answers name (length (queries s)) qs r"
proof (induction e server i answers name s arbitrary: r s' rule: cname_loop.induct)
  case (1 e server i answers name s)
  show ?case
  proof (cases "i < 10")
    case False
    with "1.prems" have "r = Inr (answers, name)" "s' = s" by (simp_all add: cname_loop.simps)
    moreover have "cname_run e server (10 - i) answers name (length (queries s)) [] (Inr (answers, name))"
      using False by (simp add: cname_run_def)
    ultimately show ?thesis by simp
  next
    case True
    obtain ra s1 where R: "ResolveDNS e name server ''CNAME'' s = (ra, s1)"
      by (cases "ResolveDNS e name server ''CNAME'' s")
    note W = ResolveDNS_world[OF R]
    let ?q = "Query name server ''CNAME''"
    let ?n = "length (queries s)"
    from "1.prems" True R have P: "(case ra of None \<Rightarrow> (Inr (answers, name), s1)
         | Some a \<Rightarrow> (case a of [] \<Rightarrow> (Inl IndexOutOfRange, s1)
              | a0 # _ \<Rightarrow> cname_loop e server (i + 1) (answers @ [a0]) (ansData a0) s1)) = (r, s')"
      by (simp add: cname_loop.simps)
    show ?thesis
    proof (cases ra)
      case None
      with P W have r: "r = Inr (answers, name)" "s' = s1" by simp_all
      have "cname_run e server (10 - i) answers name ?n [?q] (Inr (answers, name))"
        using True W None by (simp add: cname_run_def)
      with r W show ?thesis by simp
    next
      case (Some a)
      show ?thesis
      proof (cases a)
        case Nil
        with P Some have r: "r = Inl IndexOutOfRange" "s' = s1" by simp_all
        have "cname_run e server (10 - i) answers name ?n [?q] (Inl IndexOutOfRange)"
          using True W Some Nil by (simp add: cname_run_def)
        with r W show ?thesis by simp
      next
        case (Cons a0 rest)
        from P Some Cons
        have L: "cname_loop e server (i + 1) (answers @ [a0]) (ansData a0) s1 = (r, s')"
          by simp
        from "1.IH"[OF True R[symmetric] Some Cons L]
        obtain qs where Q: "queries s' = queries s1 @ qs" "rpos s' = rpos s1"
          "usableServers s' = usableServers s1"
          "cname_run e server (10 - (i + 1)) (answers @ [a0]) (ansData a0) (length (queries s1)) qs r"
          by blast
        have N: "net e ?n ?q = Some (a0 # rest)" using W Some Cons by simp
        have n1: "length (queries s1) = Suc ?n" using W by simp
        have "cname_run e server (10 - i) answers name ?n (?q # qs) r"
        proof (cases r)
          case (Inl p)
          with Q(4) obtain m where m: "p = IndexOutOfRange" "length qs \<le> 10 - (i + 1)"
            "\<forall>q \<in> set qs. qtype q = ''CNAME'' \<and> qserver q = server"
            "length qs = Suc m" "net e (Suc ?n + m) (qs ! m) = Some []"
            "\<forall>k<m. \<exists>a as. net e (Suc ?n + k) (qs ! k) = Some (a # as)"
            unfolding cname_run_def n1 by auto
          have "\<forall>k<Suc m. \<exists>a as. net e (?n + k) ((?q # qs) ! k) = Some (a # as)"
          proof (intro allI impI)
            fix k assume "k < Suc m"
            then show "\<exists>a as. net e (?n + k) ((?q # qs) ! k) = Some (a # as)"
              using N m(6) by (cases k) auto
          qed
          moreover have "length (?q # qs) = Suc (Suc m)" using m by simp
          moreover have "net e (?n + Suc m) ((?q # qs) ! Suc m) = Some []" using m by simp
          ultimately show ?thesis using Inl m True unfolding cname_run_def
            by (simp del: nth_Cons_Suc)
        next
          case (Inr x)
          obtain answers' name' where x: "x = (answers', name')" by (cases x)
          with Inr Q(4) obtain new where nw: "length qs \<le> 10 - (i + 1)"
            "\<forall>q \<in> set qs. qtype q = ''CNAME'' \<and> qserver q = server"
            "answers' = (answers @ [a0]) @ new"
            "\<forall>k<length new. \<exists>rest. net e (Suc ?n + k) (qs ! k) = Some (new ! k # rest)"
            "if length new < 10 - (i + 1)
               then length qs = Suc (length new) \<and> net e (Suc ?n + length new) (qs ! length new) = None
               else length qs = length new"
            "name' = (if new = [] then ansData a0 else ansData (last new))"
            unfolding cname_run_def n1 by auto
          let ?new = "a0 # new"
          have a: "answers' = answers @ ?new" using nw by simp
          have b: "\<forall>k<length ?new. \<exists>rest. net e (?n + k) ((?q # qs) ! k) = Some (?new ! k # rest)"
          proof (intro allI impI)
            fix k assume "k < length ?new"
            then show "\<exists>rest. net e (?n + k) ((?q # qs) ! k) = Some (?new ! k # rest)"
              using N nw(4) by (cases k) auto
          qed
          have c: "if length ?new < 10 - i
               then length (?q # qs) = Suc (length ?new) \<and>
                    net e (?n + length ?new) ((?q # qs) ! length ?new) = None
               else length (?q # qs) = length ?new"
            using nw(5) True by (auto split: if_splits)
          have d: "name' = (if ?new = [] then name else ansData (last ?new))" using nw(6) by simp
          have "length (?q # qs) \<le> 10 - i" using nw(1) True by simp
          moreover have "\<forall>q \<in> set (?q # qs). qtype q = ''CNAME'' \<and> qserver q = server"
            using nw(2) by simp
          ultimately show ?thesis using a b c d Inr x unfolding cname_run_def
            by (simp only: sum.case prod.case) blast
        qed
        moreover have "queries s' = queries s @ (?q # qs)" using Q W by simp
        moreover have "rpos s' = rpos s" "usableServers s' = usableServers s" using Q W by simp_all
        ultimately show ?thesis by blast
      qed
    qed
  qed
qed

lemma issued_append: "queries s' = queries s @ qs \<Longrightarrow> issued s s' = qs"
  by (simp add: issued_def)

text \<open>
  Claim C10. On every hop where the CNAME query reports success, \<^verbatim>\<open>recursiveCNAME\<close> reads
  the first element of the answer list: each recorded answer is the head of what the
  oracle returned for that query. The walk panics with an index out of range exactly
  when one of the CNAME queries it issued was answered by a success with an empty
  answer list, and it has no other panic; so it is index-safe exactly under the
  precondition that every successful CNAME resolution carries at least one answer.
\<close>

theorem recursiveCNAME_index_safety:
  assumes "recursiveCNAME e name server s = (r, s')"
  shows "(r = Inl IndexOutOfRange \<longleftrightarrow>
            (\<exists>k<length (issued s s').
               net e (length (queries s) + k) (issued s s' ! k) = Some []))
       \<and> (\<forall>p. r = Inl p \<longrightarrow> p = IndexOutOfRange)
       \<and> (\<forall>answers name'. r = Inr (answers, name') \<longrightarrow>
            (\<forall>k<length answers. \<exists>rest.
               net e (length (queries s) + k) (issued s s' ! k) = Some (answers ! k # rest)))"
proof -
  from assms obtain qs where Q: "queries s' = queries s @ qs"
    and C: "cname_run e server 10 [] name (length (queries s)) qs r"
    using cname_loop_run[of e server 0 "[]" name s r s'] by (auto simp: recursiveCNAME_def)
  have I: "issued s s' = qs" using Q by (rule issued_append)
  show ?thesis
  proof (cases r)
    case (Inl p)
    with C obtain m where m: "p = IndexOutOfRange" "length qs = Suc m"
      "net e (length (queries s) + m) (qs ! m) = Some []"
      by (auto simp: cname_run_def)
    then have "\<exists>k<length qs. net e (length (queries s) + k) (qs ! k) = Some []"
      by (intro exI[of _ m]) simp
    with Inl m I show ?thesis by simp
  next
    case (Inr x)
    obtain answers name' where x: "x = (answers, name')" by (cases x)
    with Inr C obtain new where nw: "answers = new"
      "\<forall>k<length new. \<exists>rest. net e (length (queries s) + k) (qs ! k) = Some (new ! k # rest)"
      "if length new < 10
         then length qs = Suc (length new) \<and>
              net e (length (queries s) + length new) (qs ! length new) = None
         else length qs = length new"
      by (auto simp: cname_run_def)
    have "\<not> (\<exists>k<length qs. net e (length (queries s) + k) (qs ! k) = Some [])"
    proof
      assume "\<exists>k<length qs. net e (length (queries s) + k) (qs ! k) = Some []"
      then obtain k where k: "k < length qs" "net e (length (queries s) + k) (qs ! k) = Some []"
        by blast
      show False
      proof (cases "k < length new")
        case True
        with nw(2) k show False by auto
      next
        case False
        with nw(3) k have "k = length new" "net e (length (queries s) + length new) (qs ! length new) = None"
          by (auto split: if_splits)
        with k show False by simp
      qed
    qed
    with Inr x nw I show ?thesis by simp
  qed
qed

theorem recursiveCNAME_index_safety_witness:
  "recursiveCNAME \<lparr>net = net_empty_cname, rnd = rnd_zero\<rparr> ''a.ex.com'' ''8.8.8.8:53'' world0 =
     (Inl IndexOutOfRange, world0\<lparr>queries := [Query ''a.ex.com'' ''8.8.8.8:53'' ''CNAME'']\<rparr>)
   \<and> net_empty_cname 0 (Query ''a.ex.com'' ''8.8.8.8:53'' ''CNAME'') = Some []"
proof -
  have run: "recursiveCNAME \<lparr>net = net_empty_cname, rnd = rnd_zero\<rparr> ''a.ex.com'' ''8.8.8.8:53'' world0 =
     (Inl IndexOutOfRange, world0\<lparr>queries := [Query ''a.ex.com'' ''8.8.8.8:53'' ''CNAME'']\<rparr>)"
    by (simp add: recursiveCNAME_def cname_loop.simps ResolveDNS_def net_empty_cname_def world0_def)
  from recursiveCNAME_index_safety[OF run] run show ?thesis
    by (simp add: net_empty_cname_def)
qed


lemma dnsQuery_after_cname:
  assumes "recursiveCNAME e name server s = (Inr (cn, name'), s1)"
      and "ResolveDNS e name' server ''A'' s1 = (ra, s2)"
      and "ResolveDNS e name' server ''AAAA'' s2 = (rb, s3)"
  shows "dnsQuery e domain name server s =
           (if ra = None \<and> rb = None
            then Inr (Inl ''No A or AAAA records resolved for the name'')
            else Inr (Inr (cn @ (case ra of None \<Rightarrow> [] | Some ans \<Rightarrow> ans)
                              @ (case rb of None \<Rightarrow> [] | Some ans \<Rightarrow> ans))), s3)"
  using assms by (cases ra; cases rb) (simp_all add: dnsQuery_def)

text \<open>
  Claim C6. Once the CNAME walk has returned, \<^verbatim>\<open>dnsQuery\<close> returns an error exactly when
  neither the A query nor the AAAA query for the final name succeeded; otherwise it
  returns the answers of the CNAME walk followed by the answers of whichever of the
  two queries succeeded, and the failure of one record type alone is not reported.
\<close>

theorem dnsQuery_error_iff:
  assumes "recursiveCNAME e name server s = (Inr (cn, name'), s1)"
      and "ResolveDNS e name' server ''A'' s1 = (ra, s2)"
      and "ResolveDNS e name' server ''AAAA'' s2 = (rb, s3)"
  shows "((\<exists>msg. dnsQuery e domain name server s = (Inr (Inl msg), s3)) \<longleftrightarrow> (ra = None \<and> rb = None))
       \<and> ((\<exists>answers. dnsQuery e domain name server s = (Inr (Inr answers), s3)) \<longleftrightarrow> (ra \<noteq> None \<or> rb \<noteq> None))
       \<and> dnsQuery e domain name server s =
           (if ra = None \<and> rb = None
            then Inr (Inl ''No A or AAAA records resolved for the name'')
            else Inr (Inr (cn @ (case ra of None \<Rightarrow> [] | Some ans \<Rightarrow> ans)
                              @ (case rb of None \<Rightarrow> [] | Some ans \<Rightarrow> ans))), s3)"
  using dnsQuery_after_cname[OF assms, of domain] by auto

lemma dnsQuery_log:
  assumes "dnsQuery e domain name server s = (r, s')"
  shows "\<exists>qs r0. cname_run e server 10 [] name (length (queries s)) qs r0 \<and>
           rpos s' = rpos s \<and> usableServers s' = usableServers s \<and>
           (case r0 of
              Inl p \<Rightarrow> r = Inl p \<and> queries s' = queries s @ qs
            | Inr (cn, name') \<Rightarrow>
                queries s' = queries s @ qs @ [Query name' server ''A'', Query name' server ''AAAA''] \<and>
                (\<exists>x. r = Inr x))"
proof -
  obtain r0 s1 where R: "recursiveCNAME e name server s = (r0, s1)"
    by (cases "recursiveCNAME e name server s")
  then obtain qs where Q: "queries s1 = queries s @ qs" "rpos s1 = rpos s"
      "usableServers s1 = usableServers s"
      "cname_run e server 10 [] name (length (queries s)) qs r0"
    using cname_loop_run[of e server 0 "[]" name s r0 s1] by (auto simp: recursiveCNAME_def)
  show ?thesis
  proof (cases r0)
    case (Inl p)
    with assms R have "r = Inl p" "s' = s1" by (simp_all add: dnsQuery_def)
    with Q Inl show ?thesis by (intro exI[of _ qs] exI[of _ r0]) simp
  next
    case (Inr x)
    obtain cn name' where x: "x = (cn, name')" by (cases x)
    obtain ra s2 where A: "ResolveDNS e name' server ''A'' s1 = (ra, s2)"
      by (cases "ResolveDNS e name' server ''A'' s1")
    obtain rb s3 where B: "ResolveDNS e name' server ''AAAA'' s2 = (rb, s3)"
      by (cases "ResolveDNS e name' server ''AAAA'' s2")
    from R Inr x have R': "recursiveCNAME e name server s = (Inr (cn, name'), s1)" by simp
    from dnsQuery_after_cname[OF R' A B, of domain] assms
    have "s' = s3" "\<exists>x. r = Inr x" by (auto split: if_splits)
    moreover note ResolveDNS_world[OF A] ResolveDNS_world[OF B]
    ultimately show ?thesis using Q Inr x by (intro exI[of _ qs] exI[of _ r0]) simp
  qed
qed

lemma cname_run_filter:
  assumes "\<forall>q \<in> set qs. qtype q = ''CNAME'' \<and> qserver q = server"
  shows "filter (\<lambda>q. qtype q = ''CNAME'') qs = qs"
    and "filter (\<lambda>q. qtype q = ''A'') qs = []"
    and "filter (\<lambda>q. qtype q = ''AAAA'') qs = []"
  using assms by (induction qs) auto

text \<open>
  Claim C7. A lookup issues at most twelve resolver queries: at most ten CNAME
  queries, at most one A and at most one AAAA query; and no CNAME query follows a
  CNAME query that failed, so the walk stops at the first failure.
\<close>

theorem dnsQuery_query_bound:
  assumes "dnsQuery e domain name server s = (r, s')"
  shows "queries s' = queries s @ issued s s'
       \<and> length (issued s s') \<le> 12
       \<and> length (filter (\<lambda>q. qtype q = ''CNAME'') (issued s s')) \<le> 10
       \<and> length (filter (\<lambda>q. qtype q = ''A'') (issued s s')) \<le> 1
       \<and> length (filter (\<lambda>q. qtype q = ''AAAA'') (issued s s')) \<le> 1
       \<and> (\<forall>k j. k < j \<and> j < length (issued s s') \<and>
                 qtype (issued s s' ! k) = ''CNAME'' \<and>
                 net e (length (queries s) + k) (issued s s' ! k) = None
                 \<longrightarrow> qtype (issued s s' ! j) \<noteq> ''CNAME'')"
proof -
  let ?n = "length (queries s)"
  from dnsQuery_log[OF assms] obtain qs r0 where
    C: "cname_run e server 10 [] name ?n qs r0" and
    T: "case r0 of
          Inl p \<Rightarrow> r = Inl p \<and> queries s' = queries s @ qs
        | Inr (cn, name') \<Rightarrow>
            queries s' = queries s @ qs @ [Query name' server ''A'', Query name' server ''AAAA''] \<and>
            (\<exists>x. r = Inr x)"
    by blast
  from C have len: "length qs \<le> 10"
    and ty: "\<forall>q \<in> set qs. qtype q = ''CNAME'' \<and> qserver q = server"
    by (simp_all add: cname_run_def)
  note F = cname_run_filter[OF ty]
  show ?thesis
  proof (cases r0)
    case (Inl p)
    with T have Q: "queries s' = queries s @ qs" by simp
    then have I: "issued s s' = qs" by (rule issued_append)
    from Inl C obtain m where m: "length qs = Suc m"
      "\<forall>k<m. \<exists>a as. net e (?n + k) (qs ! k) = Some (a # as)"
      "net e (?n + m) (qs ! m) = Some []"
      by (auto simp: cname_run_def)
    have stop: "\<forall>k j. k < j \<and> j < length qs \<and> qtype (qs ! k) = ''CNAME'' \<and>
                 net e (?n + k) (qs ! k) = None \<longrightarrow> qtype (qs ! j) \<noteq> ''CNAME''"
    proof (intro allI impI)
      fix k j
      assume H: "k < j \<and> j < length qs \<and> qtype (qs ! k) = ''CNAME'' \<and>
                 net e (?n + k) (qs ! k) = None"
      then have "k < m" using m(1) by simp
      with m(2) obtain a as where "net e (?n + k) (qs ! k) = Some (a # as)" by blast
      with H show "qtype (qs ! j) \<noteq> ''CNAME''" by simp
    qed
    show ?thesis unfolding I using Q len F stop by simp
  next
    case (Inr x)
    obtain cn name' where x: "x = (cn, name')" by (cases x)
    let ?tl = "[Query name' server ''A'', Query name' server ''AAAA'']"
    from T Inr x have Q: "queries s' = queries s @ (qs @ ?tl)" by simp
    then have I: "issued s s' = qs @ ?tl" by (rule issued_append)
    from Inr x C have ok: "\<forall>k<length cn. \<exists>rest. net e (?n + k) (qs ! k) = Some (cn ! k # rest)"
      and fin: "if length cn < 10
         then length qs = Suc (length cn) \<and> net e (?n + length cn) (qs ! length cn) = None
         else length qs = length cn"
      by (auto simp: cname_run_def)
    have stop: "\<forall>k j. k < j \<and> j < length (qs @ ?tl) \<and> qtype ((qs @ ?tl) ! k) = ''CNAME'' \<and>
                 net e (?n + k) ((qs @ ?tl) ! k) = None \<longrightarrow> qtype ((qs @ ?tl) ! j) \<noteq> ''CNAME''"
    proof (intro allI impI)
      fix k j
      assume H: "k < j \<and> j < length (qs @ ?tl) \<and> qtype ((qs @ ?tl) ! k) = ''CNAME'' \<and>
                 net e (?n + k) ((qs @ ?tl) ! k) = None"
      then have kj: "k < j" and jl: "j < length qs + 2"
        and kt: "qtype ((qs @ ?tl) ! k) = ''CNAME''"
        and kn: "net e (?n + k) ((qs @ ?tl) ! k) = None"
        by simp_all
      have kq: "k < length qs"
      proof (rule ccontr)
        assume "\<not> k < length qs"
        moreover from this kj jl have "k - length qs = 0" by arith
        ultimately show False using kt by (simp add: nth_append)
      qed
      with kn have "net e (?n + k) (qs ! k) = None" by (simp add: nth_append)
      with ok have "\<not> k < length cn" by auto
      with fin kq have "length qs = Suc k" by (auto split: if_splits)
      with kj jl have "j - length qs = 0 \<or> j - length qs = 1" and "\<not> j < length qs" by arith+
      then show "qtype ((qs @ ?tl) ! j) \<noteq> ''CNAME''" by (auto simp: nth_append)
    qed
    show ?thesis unfolding I using Q len F stop by simp
  qed
qed

theorem dnsQuery_query_bound_witness:
  "length (issued world0 (snd (dnsQuery \<lparr>net = net_cname_cycle, rnd = rnd_zero\<rparr> ''ex.com'' ''a.ex.com''
             ''8.8.8.8:53'' world0))) = 12"
proof -
  obtain r s' where run: "dnsQuery \<lparr>net = net_cname_cycle, rnd = rnd_zero\<rparr> ''ex.com'' ''a.ex.com''
             ''8.8.8.8:53'' world0 = (r, s')"
    by (cases "dnsQuery \<lparr>net = net_cname_cycle, rnd = rnd_zero\<rparr> ''ex.com'' ''a.ex.com''
             ''8.8.8.8:53'' world0")
  have "length (queries s') = 12"
    using run
    by (simp add: dnsQuery_def recursiveCNAME_def cname_loop.simps ResolveDNS_def
        net_cname_cycle_def world0_def) auto
  moreover from dnsQuery_query_bound[OF run]
  have "queries s' = queries world0 @ issued world0 s'" by simp
  ultimately show ?thesis using run by (simp add: world0_def)
qed

theorem dnsQuery_error_iff_witness:
  "dnsQuery \<lparr>net = net_a_only, rnd = rnd_zero\<rparr> ''ex.com'' ''a.ex.com'' ''8.8.8.8:53'' world0 =
     (Inr (Inr [\<lparr>ansName = ''a.ex.com'', ansType = 1, ansTTL = 300, ansData = ''10.0.0.1''\<rparr>]),
      world0\<lparr>queries := [Query ''a.ex.com'' ''8.8.8.8:53'' ''CNAME'',
                          Query ''a.ex.com'' ''8.8.8.8:53'' ''A'',
                          Query ''a.ex.com'' ''8.8.8.8:53'' ''AAAA'']\<rparr>)"
proof -
  let ?e = "\<lparr>net = net_a_only, rnd = rnd_zero\<rparr>"
  let ?s1 = "world0\<lparr>queries := [Query ''a.ex.com'' ''8.8.8.8:53'' ''CNAME'']\<rparr>"
  let ?s2 = "world0\<lparr>queries := [Query ''a.ex.com'' ''8.8.8.8:53'' ''CNAME'',
                          Query ''a.ex.com'' ''8.8.8.8:53'' ''A'']\<rparr>"
  let ?s3 = "world0\<lparr>queries := [Query ''a.ex.com'' ''8.8.8.8:53'' ''CNAME'',
                          Query ''a.ex.com'' ''8.8.8.8:53'' ''A'',
                          Query ''a.ex.com'' ''8.8.8.8:53'' ''AAAA'']\<rparr>"
  have c: "recursiveCNAME ?e ''a.ex.com'' ''8.8.8.8:53'' world0 = (Inr ([], ''a.ex.com''), ?s1)"
    by (simp add: recursiveCNAME_def cname_loop.simps ResolveDNS_def net_a_only_def world0_def)
  have a: "ResolveDNS ?e ''a.ex.com'' ''8.8.8.8:53'' ''A'' ?s1 =
      (Some [\<lparr>ansName = ''a.ex.com'', ansType = 1, ansTTL = 300, ansData = ''10.0.0.1''\<rparr>], ?s2)"
    by (simp add: ResolveDNS_def net_a_only_def world0_def)
  have b: "ResolveDNS ?e ''a.ex.com'' ''8.8.8.8:53'' ''AAAA'' ?s2 = (None, ?s3)"
    by (simp add: ResolveDNS_def net_a_only_def world0_def)
  from dnsQuery_error_iff[OF c a b, of "''ex.com''"] show ?thesis by simp
qed



section \<open>Resolver pool\<close>

lemma testPublicServers_loop_spec:
  "testPublicServers_loop e servers working s = (w', s') \<Longrightarrow>
     queries s' = queries s @ map (\<lambda>srv. Query ''google.com'' srv ''A'') servers \<and>
     w' = working @ map snd (filter (\<lambda>(k, srv). net e k (Query ''google.com'' srv ''A'') \<noteq> None)
                                (enumerate (length (queries s)) servers)) \<and>
     rpos s' = rpos s \<and> usableServers s' = usableServers s"
proof (induction servers arbitrary: working s)
  case Nil
  then show ?case by simp
next
  case (Cons server rest)
  obtain ra s1 where R: "ResolveDNS e ''google.com'' server ''A'' s = (ra, s1)"
    by (cases "ResolveDNS e ''google.com'' server ''A'' s")
  note W = ResolveDNS_world[OF R]
  show ?case
  proof (cases ra)
    case None
    with Cons.prems R have "testPublicServers_loop e rest working s1 = (w', s')" by simp
    from Cons.IH[OF this] W None show ?thesis by simp
  next
    case (Some a)
    with Cons.prems R have "testPublicServers_loop e rest (working @ [server]) s1 = (w', s')"
      by simp
    from Cons.IH[OF this] W Some show ?thesis by simp
  qed
qed

lemma NextNameserver_nonempty:
  "usableServers s \<noteq> [] \<Longrightarrow>
     \<exists>srv. fst (NextNameserver e s) = Inr srv \<and> srv \<in> set (usableServers s)"
  by (simp add: NextNameserver_def rand_Int_def)

lemma NextNameserver_empty:
  "usableServers s = [] \<Longrightarrow> fst (NextNameserver e s) = Inl DivideByZero"
  by (simp add: NextNameserver_def rand_Int_def)

text \<open>
  Claim C9, amended. Initialisation issues exactly one A query for \<^verbatim>\<open>google.com\<close> to every
  address of the known list, in order, and keeps exactly the addresses whose probe
  succeeded. It has no failure result: when no probe succeeds the pool is empty and
  the run goes on. A resolver selection returns a member of the pool when the pool
  is not empty, and is a division by zero when it is empty.
\<close>

theorem init_pool_keeps_working:
  "usableServers (init_pool e s) =
     map snd (filter (\<lambda>(k, srv). net e k (Query ''google.com'' srv ''A'') \<noteq> None)
                (enumerate (length (queries s)) knownPublicServers))
   \<and> issued s (init_pool e s) = map (\<lambda>srv. Query ''google.com'' srv ''A'') knownPublicServers
   \<and> (\<forall>s1. usableServers s1 \<noteq> [] \<longrightarrow>
          (\<exists>srv. fst (NextNameserver e s1) = Inr srv \<and> srv \<in> set (usableServers s1)))
   \<and> (\<forall>s1. usableServers s1 = [] \<longrightarrow> fst (NextNameserver e s1) = Inl DivideByZero)"
proof -
  obtain w' s' where T: "testPublicServers e s = (w', s')" by (cases "testPublicServers e s")
  then have L: "testPublicServers_loop e knownPublicServers [] s = (w', s')"
    by (simp add: testPublicServers_def)
  note S = testPublicServers_loop_spec[OF L]
  have I: "init_pool e s = s'\<lparr>usableServers := w'\<rparr>" using T by (simp add: init_pool_def)
  have "issued s (init_pool e s) = map (\<lambda>srv. Query ''google.com'' srv ''A'') knownPublicServers"
    using S I by (simp add: issued_def)
  moreover have "usableServers (init_pool e s) =
     map snd (filter (\<lambda>(k, srv). net e k (Query ''google.com'' srv ''A'') \<noteq> None)
                (enumerate (length (queries s)) knownPublicServers))"
    using S I by simp
  ultimately show ?thesis using NextNameserver_nonempty NextNameserver_empty by blast
qed

theorem init_pool_keeps_working_witness:
  "usableServers (init_pool \<lparr>net = net_a_only, rnd = rnd_zero\<rparr> world0) = knownPublicServers
   \<and> fst (NextNameserver \<lparr>net = net_a_only, rnd = rnd_zero\<rparr>
            (init_pool \<lparr>net = net_a_only, rnd = rnd_zero\<rparr> world0)) = Inr ''8.8.8.8:53''"
proof -
  let ?e = "\<lparr>net = net_a_only, rnd = rnd_zero\<rparr>"
  from init_pool_keeps_working[of ?e world0]
  have u: "usableServers (init_pool ?e world0) = knownPublicServers"
    by (simp add: net_a_only_def world0_def knownPublicServers_def enumerate_eq_zip)
  have "fst (NextNameserver ?e (init_pool ?e world0)) = Inr ''8.8.8.8:53''"
    by (simp add: NextNameserver_def rand_Int_def u rnd_zero_def knownPublicServers_def)
  with u show ?thesis by simp
qed

text \<open>
  Claim C9 as stated fails: on a network where every probe fails, initialisation
  completes with an empty pool, and the selection of a resolver that follows is made
  on the empty pool.
\<close>

theorem init_pool_empty_counterexample:
  "usableServers (init_pool \<lparr>net = net_down, rnd = rnd_zero\<rparr> world0) = []
   \<and> fst (NextNameserver \<lparr>net = net_down, rnd = rnd_zero\<rparr>
            (init_pool \<lparr>net = net_down, rnd = rnd_zero\<rparr> world0)) = Inl DivideByZero"
proof -
  let ?e = "\<lparr>net = net_down, rnd = rnd_zero\<rparr>"
  have u: "usableServers (init_pool ?e world0) = []"
    by (simp add: init_pool_def testPublicServers_def knownPublicServers_def ResolveDNS_def
        net_down_def)
  then show ?thesis by (simp add: NextNameserver_def rand_Int_def)
qed



section \<open>Unlikely names\<close>

lemma rand_Int_world:
  "rand_Int e s = (r, s') \<Longrightarrow>
     r = rnd e (rpos s) \<and> queries s' = queries s \<and> usableServers s' = usableServers s \<and>
     rpos s' = rpos s + 1"
  by (auto simp: rand_Int_def)

lemma Shuffle_loop_set:
  "k < length ldh \<Longrightarrow> Shuffle_loop e k ldh s = (ldh', s') \<Longrightarrow>
     set ldh' = set ldh \<and> length ldh' = length ldh \<and> queries s' = queries s \<and>
     usableServers s' = usableServers s"
proof (induction k arbitrary: ldh s)
  case 0
  then show ?case by simp
next
  case (Suc k)
  obtain r s1 where R: "rand_Int e s = (r, s1)" by (cases "rand_Int e s")
  let ?j = "r mod (Suc k + 1)"
  let ?ldh = "ldh[Suc k := ldh ! ?j, ?j := ldh ! Suc k]"
  have "?j < Suc k + 1" by simp
  with Suc.prems(1) have j: "?j < length ldh" by linarith
  from Suc.prems(2) R have L: "Shuffle_loop e k ?ldh s1 = (ldh', s')" by (simp add: Let_def)
  have "k < length ?ldh" using Suc.prems(1) by simp
  from Suc.IH[OF this L] have "set ldh' = set ?ldh" "length ldh' = length ?ldh"
    "queries s' = queries s1" "usableServers s' = usableServers s1" by simp_all
  moreover have "set ?ldh = set ldh" using Suc.prems(1) j by (rule set_swap)
  ultimately show ?case using rand_Int_world[OF R] by simp
qed

lemma label_loop_spec:
  "ldh \<noteq> [] \<Longrightarrow> label_loop e ldh l i newlabel s = (r, s') \<Longrightarrow>
     (\<exists>added. r = newlabel @ added \<and> set added \<subseteq> set ldh \<and> length added \<le> l - i) \<and>
     queries s' = queries s \<and> usableServers s' = usableServers s"
proof (induction e ldh l i newlabel s arbitrary: r s' rule: label_loop.induct)
  case (1 e ldh l i newlabel s)
  show ?case
  proof (cases "i < l")
    case False
    with "1.prems" show ?thesis by (simp add: label_loop.simps)
  next
    case True
    obtain rn s1 where R: "rand_Int e s = (rn, s1)" by (cases "rand_Int e s")
    note W = rand_Int_world[OF R]
    let ?sel = "rn mod length ldh"
    have sel: "ldh ! ?sel \<in> set ldh" using "1.prems"(1) by simp
    from "1.prems"(2) True R
    have P: "(if (i = 0 \<or> i = l - 1) \<and> ldh ! ?sel = CHR ''-''
              then label_loop e ldh l (i + 1) newlabel s1
              else label_loop e ldh l (i + 1) (newlabel @ [ldh ! ?sel]) s1) = (r, s')"
      by (simp add: label_loop.simps[of e ldh l i] Let_def)
    show ?thesis
    proof (cases "(i = 0 \<or> i = l - 1) \<and> ldh ! ?sel = CHR ''-''")
      case skip: True
      with P have L: "label_loop e ldh l (i + 1) newlabel s1 = (r, s')"
        by (simp only: if_True simp_thms)
      from "1.IH"(1)[OF True R[symmetric] refl skip "1.prems"(1) L] W show ?thesis
        by auto
    next
      case noskip: False
      with P
      have L: "label_loop e ldh l (i + 1) (newlabel @ [ldh ! ?sel]) s1 = (r, s')"
        by (simp only: if_False)
      from "1.IH"(2)[OF True R[symmetric] refl noskip "1.prems"(1) L]
      obtain added where A: "r = (newlabel @ [ldh ! ?sel]) @ added" "set added \<subseteq> set ldh"
        "length added \<le> l - (i + 1)" "queries s' = queries s1" "usableServers s' = usableServers s1"
        by blast
      have "r = newlabel @ (ldh ! ?sel # added)" using A by simp
      moreover have "set (ldh ! ?sel # added) \<subseteq> set ldh" using A sel by simp
      moreover have "length (ldh ! ?sel # added) \<le> l - i" using A True by simp
      ultimately show ?thesis using A W by metis
    qed
  qed
qed


lemma Shuffle_loop_keep:
  "\<forall>p<k. rnd e (rpos s + p) mod (k - p + 1) = k - p \<Longrightarrow>
     Shuffle_loop e k ldh s = (ldh, s\<lparr>rpos := rpos s + k\<rparr>)"
proof (induction k arbitrary: s)
  case 0
  then show ?case by simp
next
  case (Suc k)
  from Suc.prems have h: "rnd e (rpos s) mod (Suc k + 1) = Suc k" by force
  have "\<forall>p<k. rnd e (rpos (s\<lparr>rpos := rpos s + 1\<rparr>) + p) mod (k - p + 1) = k - p"
  proof (intro allI impI)
    fix p assume "p < k"
    then have "Suc p < Suc k" by simp
    with Suc.prems have "rnd e (rpos s + Suc p) mod (Suc k - Suc p + 1) = Suc k - Suc p" by blast
    then show "rnd e (rpos (s\<lparr>rpos := rpos s + 1\<rparr>) + p) mod (k - p + 1) = k - p" by simp
  qed
  from Suc.IH[OF this] h show ?case by (simp add: rand_Int_def Let_def)
qed


lemma label_loop_const:
  "\<forall>p. rnd e (rpos s + p) mod length ldh = c \<Longrightarrow>
     fst (label_loop e ldh l i newlabel s) =
       newlabel @ concat (map (\<lambda>k. if (k = 0 \<or> k = l - 1) \<and> ldh ! c = CHR ''-'' then []
                                   else [ldh ! c]) [i..<l])"
proof (induction e ldh l i newlabel s rule: label_loop.induct)
  case (1 e ldh l i newlabel s)
  show ?case
  proof (cases "i < l")
    case False
    then show ?thesis by (simp add: label_loop.simps)
  next
    case True
    let ?s1 = "s\<lparr>rpos := rpos s + 1\<rparr>"
    have R: "rand_Int e s = (rnd e (rpos s), ?s1)" by (simp add: rand_Int_def)
    have c: "rnd e (rpos s) mod length ldh = c" using "1.prems" by (metis add_0_right)
    have nxt: "\<forall>p. rnd e (rpos ?s1 + p) mod length ldh = c"
    proof
      fix p
      from "1.prems" have "rnd e (rpos s + Suc p) mod length ldh = c" by blast
      then show "rnd e (rpos ?s1 + p) mod length ldh = c" by simp
    qed
    have U: "[i..<l] = i # [i + 1..<l]" using True by (simp add: upt_conv_Cons)
    define b where "b = ((i = 0 \<or> i = l - 1) \<and> ldh ! (rnd e (rpos s) mod length ldh) = CHR ''-'')"
    have E: "label_loop e ldh l i newlabel s =
               (if b then label_loop e ldh l (i + 1) newlabel ?s1
                else label_loop e ldh l (i + 1)
                       (newlabel @ [ldh ! (rnd e (rpos s) mod length ldh)]) ?s1)"
      using True unfolding b_def
      by (simp add: label_loop.simps[of e ldh l i] rand_Int_def Let_def)
    show ?thesis
    proof (cases b)
      case True
      then have skip: "(i = 0 \<or> i = l - 1) \<and> ldh ! (rnd e (rpos s) mod length ldh) = CHR ''-''"
        by (simp add: b_def)
      from E True have "label_loop e ldh l i newlabel s = label_loop e ldh l (i + 1) newlabel ?s1"
        by simp
      moreover note "1.IH"(1)[OF \<open>i < l\<close> R[symmetric] refl skip nxt]
      moreover have "(i = 0 \<or> i = l - 1) \<and> ldh ! c = CHR ''-''" using skip c by simp
      ultimately show ?thesis using U by simp
    next
      case False
      then have noskip: "\<not> ((i = 0 \<or> i = l - 1) \<and> ldh ! (rnd e (rpos s) mod length ldh) = CHR ''-'')"
        by (simp add: b_def)
      from E False have "label_loop e ldh l i newlabel s =
            label_loop e ldh l (i + 1) (newlabel @ [ldh ! (rnd e (rpos s) mod length ldh)]) ?s1"
        by simp
      moreover note "1.IH"(2)[OF \<open>i < l\<close> R[symmetric] refl noskip nxt]
      moreover have "\<not> ((i = 0 \<or> i = l - 1) \<and> ldh ! c = CHR ''-'')" using noskip c by simp
      ultimately show ?thesis using U c by simp
    qed
  qed
qed


lemma length_ldhChars: "length ldhChars = 37"
  by (simp add: ldhChars_def)

lemma unlikelyName_rnd_keep:
  assumes "rpos s = 0"
  shows "fst (unlikelyName (env_keep c) sub s) =
     (if \<not> 253 - int (length sub) > 63 \<and> 253 - int (length sub) < 1 then []
      else if keep_label c (nat (if 253 - int (length sub) > 63 then 31 else 253 - int (length sub))) = []
           then []
           else keep_label c (nat (if 253 - int (length sub) > 63 then 31 else 253 - int (length sub)))
                  @ ''.'' @ sub)"
proof -
  let ?e = "env_keep c"
  let ?d = "253 - int (length sub)"
  let ?l = "nat (if ?d > 63 then 31 else ?d)"
  let ?s1 = "s\<lparr>rpos := rpos s + 36\<rparr>"
  show ?thesis
  proof (cases "\<not> ?d > 63 \<and> ?d < 1")
    case True
    then have "unlikelyName ?e sub s = ([], s)"
      by (simp add: unlikelyName_def Let_def maxNameLen_def maxLabelLen_def)
    with True show ?thesis by simp
  next
    case False
    have "\<forall>p<36. rnd ?e (rpos s + p) mod (36 - p + 1) = 36 - p"
      using assms by (simp add: env_keep_def rnd_keep_def)
    then have S: "Shuffle ?e (length ldhChars) ldhChars s = (ldhChars, ?s1)"
      using Shuffle_loop_keep[of 36 ?e s ldhChars] by (simp add: Shuffle_def length_ldhChars)
    have "\<forall>p. rnd ?e (rpos ?s1 + p) mod length ldhChars = c mod 37"
      using assms by (simp add: env_keep_def rnd_keep_def length_ldhChars)
    from label_loop_const[OF this, of ?l 0 "[]"]
    have L: "fst (label_loop ?e ldhChars ?l 0 [] ?s1) = keep_label c ?l"
      by (simp only: keep_label_def append_Nil)
    obtain newlabel s2 where LL: "label_loop ?e ldhChars ?l 0 [] ?s1 = (newlabel, s2)"
      by (cases "label_loop ?e ldhChars ?l 0 [] ?s1")
    with L have nl: "newlabel = keep_label c ?l" by simp
    have d: "maxNameLen - int (length sub) = ?d" "maxLabelLen = 63" "(63::int) div 2 = 31"
      by (simp_all add: maxNameLen_def maxLabelLen_def)
    have "unlikelyName ?e sub s =
            (if newlabel = [] then (newlabel, s2) else (newlabel @ ''.'' @ sub, s2))"
      using False unfolding unlikelyName_def Let_def d S prod.case LL
      by (simp only: if_False prod.case)
    then have "fst (unlikelyName ?e sub s) = (if newlabel = [] then [] else newlabel @ ''.'' @ sub)"
      by simp
    with False show ?thesis unfolding nl by (simp only: if_False)
  qed
qed

text \<open>
  Claim C8, amended. A generated name is empty or a label, a dot and the suffix. The
  label is not empty, uses only LDH characters, and is at most \<open>L\<close> bytes long, where
  \<open>L\<close> is \<open>maxLabelLen / 2 = 31\<close> when \<open>maxNameLen - len(sub)\<close> exceeds \<open>maxLabelLen\<close> and
  \<open>maxNameLen - len(sub)\<close> otherwise, so at most 63. Generation returns the empty name
  when \<open>maxNameLen - len(sub)\<close> is below 1. When \<open>maxNameLen - len(sub)\<close> exceeds
  \<open>maxLabelLen\<close> the whole name is at most 253 bytes long.
\<close>

theorem unlikelyName_wellformed:
  assumes "unlikelyName e sub s = (name, s')"
  shows "(maxNameLen - int (length sub) < 1 \<longrightarrow> name = [])
       \<and> (name = [] \<or>
            (\<exists>label. name = label @ ''.'' @ sub \<and> label \<noteq> [] \<and> set label \<subseteq> set ldhChars
               \<and> int (length label) \<le>
                    (if maxNameLen - int (length sub) > maxLabelLen then maxLabelLen div 2
                     else maxNameLen - int (length sub))
               \<and> int (length label) \<le> maxLabelLen))
       \<and> (maxNameLen - int (length sub) > maxLabelLen \<longrightarrow> int (length name) \<le> maxNameLen)"
proof -
  let ?d = "maxNameLen - int (length sub)"
  let ?l = "if ?d > maxLabelLen then maxLabelLen div 2 else ?d"
  show ?thesis
  proof (cases "\<not> ?d > maxLabelLen \<and> ?d < 1")
    case True
    with assms have "name = []" by (simp add: unlikelyName_def Let_def)
    with True show ?thesis by simp
  next
    case False
    obtain ldh s1 where S: "Shuffle e (length ldhChars) ldhChars s = (ldh, s1)"
      by (cases "Shuffle e (length ldhChars) ldhChars s")
    obtain newlabel s2 where L: "label_loop e ldh (nat ?l) 0 [] s1 = (newlabel, s2)"
      by (cases "label_loop e ldh (nat ?l) 0 [] s1")
    from S have "Shuffle_loop e (length ldhChars - 1) ldhChars s = (ldh, s1)"
      by (simp add: Shuffle_def)
    from Shuffle_loop_set[OF _ this] have ldh: "set ldh = set ldhChars" "length ldh = length ldhChars"
      by (simp_all add: length_ldhChars)
    then have "ldh \<noteq> []" by (auto simp: length_ldhChars)
    from label_loop_spec[OF this L] ldh
    have lab: "set newlabel \<subseteq> set ldhChars" "length newlabel \<le> nat ?l" by auto
    from assms False S L have N: "name = (if newlabel = [] then [] else newlabel @ ''.'' @ sub)"
      by (auto simp: unlikelyName_def Let_def split: if_splits)
    have pos: "1 \<le> ?l" using False by (auto simp: maxLabelLen_def)
    have b1: "int (length newlabel) \<le> ?l" using lab(2) pos by linarith
    have b2: "int (length newlabel) \<le> maxLabelLen"
      using b1 by (auto simp: maxLabelLen_def split: if_splits)
    have b3: "?d > maxLabelLen \<longrightarrow> int (length name) \<le> maxNameLen"
      using b1 N by (auto simp: maxLabelLen_def maxNameLen_def)
    have b0: "\<not> ?d < 1" using False by (auto simp: maxLabelLen_def)
    show ?thesis
    proof (cases "newlabel = []")
      case True
      with N b0 b3 show ?thesis by simp
    next
      case nonempty: False
      with N have "name = newlabel @ ''.'' @ sub" by simp
      with nonempty lab(1) b1 b2 have "\<exists>label. name = label @ ''.'' @ sub \<and> label \<noteq> [] \<and>
          set label \<subseteq> set ldhChars \<and> int (length label) \<le> ?l \<and> int (length label) \<le> maxLabelLen"
        by blast
      with b0 b3 show ?thesis by blast
    qed
  qed
qed

lemma concat_singletons: "concat (map (\<lambda>k. [x]) [i..<l]) = replicate (l - i) x"
proof (induction l)
  case 0
  then show ?case by simp
next
  case (Suc l)
  then show ?case by (cases "i \<le> l") (simp_all add: Suc_diff_le replicate_append_same)
qed

lemma concat_skip_ends:
  "concat (map (\<lambda>k. if k = 0 \<or> k = Suc m then [] else [x]) [0..<Suc (Suc m)]) = replicate m x"
proof -
  have U: "[0..<Suc (Suc m)] = 0 # [1..<Suc m] @ [Suc m]" by (simp add: upt_conv_Cons)
  have M: "map (\<lambda>k. if k = 0 \<or> k = Suc m then [] else [x]) [1..<Suc m] = map (\<lambda>k. [x]) [1..<Suc m]"
    by (rule map_cong) auto
  have "concat (map (\<lambda>k. if k = 0 \<or> k = Suc m then [] else [x]) [0..<Suc (Suc m)]) =
        concat (map (\<lambda>k. [x]) [1..<Suc m])"
    unfolding U by (simp only: map_append list.map concat.simps concat_append M if_True simp_thms
        append_Nil append_Nil2)
  also have "\<dots> = replicate (Suc m - 1) x" by (rule concat_singletons)
  finally show ?thesis by simp
qed

lemma ldhChars_nth: "ldhChars ! 0 = CHR ''a''" "ldhChars ! 36 = CHR ''-''"
  by (simp_all add: ldhChars_def)



lemma keep_label_a: "keep_label 0 l = replicate l CHR ''a''"
  by (simp add: keep_label_def ldhChars_nth map_replicate_const)

lemma keep_label_hyphen: "keep_label 36 (Suc (Suc m)) = replicate m CHR ''-''"
proof -
  have h: "ldhChars ! (36 mod 37) = CHR ''-''" by (simp add: ldhChars_nth)
  have s: "Suc (Suc m) - 1 = Suc m" by simp
  show ?thesis unfolding keep_label_def h s
    using concat_skip_ends[of m "CHR ''-''"] by (simp only: simp_thms)
qed

lemma unlikelyName_keep_wild:
  "fst (unlikelyName (env_keep 0) ''wild.com'' world0) = replicate 31 CHR ''a'' @ ''.wild.com''"
  by (simp add: unlikelyName_rnd_keep world0_def keep_label_a)

theorem unlikelyName_wellformed_witness:
  "\<exists>label. fst (unlikelyName (env_keep 0) ''wild.com'' world0) = label @ ''.'' @ ''wild.com''
      \<and> label \<noteq> [] \<and> set label \<subseteq> set ldhChars \<and> int (length label) \<le> 31"
proof -
  obtain name s' where run: "unlikelyName (env_keep 0) ''wild.com'' world0 = (name, s')"
    by (cases "unlikelyName (env_keep 0) ''wild.com'' world0")
  with unlikelyName_keep_wild have "name \<noteq> []" by auto
  with unlikelyName_wellformed[OF run] run show ?thesis
    by (simp add: maxNameLen_def maxLabelLen_def) blast
qed

text \<open>
  Claim C8 as stated fails. Under a suffix of 200 bytes the label has 53 bytes, which
  is neither \<open>min(31, 53)\<close> nor at most 31, and the name has 254 bytes. When every draw
  of the label loop is the hyphen, the two draws at the ends are skipped and the
  label for \<^verbatim>\<open>wild.com\<close> is 29 hyphens.
\<close>

theorem unlikelyName_length_counterexample:
  "fst (unlikelyName (env_keep 0) sub200 world0) = replicate 53 CHR ''a'' @ ''.'' @ sub200
   \<and> length (replicate 53 CHR ''a'') \<noteq>
       nat (min (maxLabelLen div 2) (maxNameLen - int (length sub200)))
   \<and> \<not> length (replicate 53 CHR ''a'') \<le> 31
   \<and> \<not> length (replicate 53 CHR ''a'' @ ''.'' @ sub200) \<le> 253
   \<and> fst (unlikelyName (env_keep 36) ''wild.com'' world0) = replicate 29 CHR ''-'' @ ''.wild.com''"
proof -
  have l: "length sub200 = 200" by (simp add: sub200_def)
  have a: "fst (unlikelyName (env_keep 0) sub200 world0) = replicate 53 CHR ''a'' @ ''.'' @ sub200"
    by (simp add: unlikelyName_rnd_keep world0_def keep_label_a l)
  have k: "keep_label 36 31 = replicate 29 CHR ''-''" using keep_label_hyphen[of 29] by simp
  have b: "fst (unlikelyName (env_keep 36) ''wild.com'' world0) = replicate 29 CHR ''-'' @ ''.wild.com''"
    by (simp add: unlikelyName_rnd_keep world0_def k)
  have c: "length (replicate 53 CHR ''a'') \<noteq>
       nat (min (maxLabelLen div 2) (maxNameLen - int (length sub200)))"
    by (simp add: l maxLabelLen_def maxNameLen_def)
  have d: "\<not> length (replicate 53 CHR ''a'') \<le> 31" by simp
  have e: "\<not> length (replicate 53 CHR ''a'' @ ''.'' @ sub200) \<le> 253" by (simp add: l)
  from a b c d e show ?thesis by blast
qed



section \<open>Request pipeline: deduplication and dispatch\<close>

lemma admitted_names:
  "distinct (map reqName (admitted trim seen rs)) \<and>
   set (map reqName (admitted trim seen rs)) \<inter> seen = {}"
proof (induction rs arbitrary: seen)
  case Nil
  then show ?case by simp
next
  case (Cons add rest)
  from Cons.IH[of "insert (trim (reqName add)) seen"] Cons.IH[of seen]
  show ?case by auto
qed

lemma processRequests_queue:
  "dispatched (processRequests trim evs p) @
     filter (\<lambda>r. reqDomain r \<noteq> []) (queue (processRequests trim evs p)) =
   dispatched p @ filter (\<lambda>r. reqDomain r \<noteq> []) (queue p) @
     filter (\<lambda>r. reqDomain r \<noteq> []) (admitted trim (filter' p) (inputs evs))"
proof (induction trim evs p rule: processRequests.induct)
  case (1 trim p)
  then show ?case by simp
next
  case (2 trim add evs p)
  then show ?case by (simp add: Let_def)
next
  case (3 trim evs p)
  show ?case
  proof (cases "queue p")
    case Nil
    with 3 show ?thesis by simp
  next
    case (Cons nxt rest)
    with 3 show ?thesis by (simp add: Let_def)
  qed
next
  case (4 trim evs p)
  then show ?case by simp
next
  case (5 trim evs p)
  then show ?case by simp
qed

text \<open>
  Claim C5, amended. For every sequence of events, no name is handed to the query
  engine more than once, and the requests dispatched, followed by the queued requests
  with a non-empty domain that are still to be dispatched, are exactly the admitted
  requests with a non-empty domain: the first request of every non-empty normalised
  name, if its domain is not empty. The domain is not compared with the name, and a
  later request for a name already seen is dropped whatever its domain.
\<close>

theorem processRequests_dispatch_once:
  "distinct (map reqName (dispatched (processRequests trim evs start_pipeline)))
   \<and> dispatched (processRequests trim evs start_pipeline) @
       filter (\<lambda>r. reqDomain r \<noteq> []) (queue (processRequests trim evs start_pipeline)) =
     filter (\<lambda>r. reqDomain r \<noteq> []) (admitted trim {} (inputs evs))"
proof -
  let ?p = "processRequests trim evs start_pipeline"
  let ?ne = "\<lambda>r. reqDomain r \<noteq> []"
  have Q: "dispatched ?p @ filter ?ne (queue ?p) = filter ?ne (admitted trim {} (inputs evs))"
    using processRequests_queue[of trim evs start_pipeline] by (simp add: start_pipeline_def)
  have "distinct (map reqName (admitted trim {} (inputs evs)))"
    using admitted_names[of trim "{}" "inputs evs"] by simp
  then have "distinct (map reqName (filter ?ne (admitted trim {} (inputs evs))))"
    by (rule distinct_map_filter)
  with Q have "distinct (map reqName (dispatched ?p @ filter ?ne (queue ?p)))" by simp
  then have "distinct (map reqName (dispatched ?p))" by simp
  with Q show ?thesis by simp
qed

theorem processRequests_dispatch_once_witness:
  "map reqName (dispatched (processRequests trim252F events_duplicate start_pipeline)) =
     [''a.ex.com'', ''b.ex.com'']"
proof -
  have q: "queue (processRequests trim252F events_duplicate start_pipeline) = []"
    by (simp add: events_duplicate_def start_pipeline_def request_def Let_def)
  from processRequests_dispatch_once[of trim252F events_duplicate] q
  have "dispatched (processRequests trim252F events_duplicate start_pipeline) =
          filter (\<lambda>r. reqDomain r \<noteq> []) (admitted trim252F {} (inputs events_duplicate))"
    by simp
  then show ?thesis by (simp add: events_duplicate_def request_def)
qed

text \<open>
  Claim C5 as stated fails in both directions once the queue has drained: a name whose
  first request has an empty domain is never dispatched although a later request
  carries a matching domain, and a name is dispatched under a domain it does not end
  in.
\<close>

theorem processRequests_count_counterexample:
  "dispatched (processRequests trim252F events_shadowed start_pipeline) = []
   \<and> queue (processRequests trim252F events_shadowed start_pipeline) = []
   \<and> spec_dispatch_names trim252F (inputs events_shadowed) = [''a.com'']
   \<and> map reqName (dispatched (processRequests trim252F events_foreign start_pipeline)) = [''a.com'']
   \<and> spec_dispatch_names trim252F (inputs events_foreign) = []"
  by (simp add: events_shadowed_def events_foreign_def start_pipeline_def request_def Let_def
      spec_dispatch_names_def HasSuffix_def)



section \<open>Wildcard matching along the label path\<close>

lemma wildcard_loop_spec:
  "wildcard_loop e root ip labels k answer wildcards s = (Inr (answer', wildcards'), s') \<Longrightarrow>
     (\<forall>sub w. wildcards sub = Some w \<longrightarrow> wildcards' sub = Some w) \<and>
     (\<forall>i. 1 \<le> i \<and> i \<le> k \<longrightarrow> wildcards' (Join (drop i labels) ''.'') \<noteq> None) \<and>
     (answer' \<longleftrightarrow> answer \<or>
        (\<exists>i. 1 \<le> i \<and> i \<le> k \<and> entry_matches wildcards' (Join (drop i labels) ''.'') ip))"
proof (induction k arbitrary: answer wildcards s)
  case 0
  then show ?case by simp
next
  case (Suc k)
  let ?sub = "Join (drop (Suc k) labels) ''.''"
  let ?look = "case wildcards ?sub of
                 Some w \<Rightarrow> (Inr (w, wildcards), s)
               | None \<Rightarrow>
                   (case wildcardDetection e ?sub root s of
                      (Inl p, s1) \<Rightarrow> (Inl p, s1)
                    | (Inr r, s1) \<Rightarrow>
                        let entry = (case r of
                                       Some ss \<Rightarrow> \<lparr>HasWildcard = True, Answers = Some ss\<rparr>
                                     | None \<Rightarrow> \<lparr>HasWildcard = False, Answers = None\<rparr>)
                        in (Inr (entry, wildcards(?sub \<mapsto> entry)), s1))"
  obtain lr s1 where LK: "?look = (lr, s1)" by (cases ?look)
  from Suc.prems have P: "(case (lr, s1) of
           (Inl p, s1) \<Rightarrow> (Inl p, s1)
         | (Inr (w, wildcards1), s1) \<Rightarrow>
             if HasWildcard w then
               (case Answers w of
                  None \<Rightarrow> (Inl NilDereference, s1)
                | Some ss \<Rightarrow>
                    wildcard_loop e root ip labels k (if ip \<in> ss then True else answer)
                      wildcards1 s1)
             else wildcard_loop e root ip labels k answer wildcards1 s1) =
          (Inr (answer', wildcards'), s')"
    unfolding wildcard_loop.simps Let_def LK[symmetric] by simp
  then obtain w wildcards1 where lr: "lr = Inr (w, wildcards1)"
    by (cases lr) auto
  have C1: "wildcards1 ?sub = Some w \<and> (\<forall>sub w. wildcards sub = Some w \<longrightarrow> wildcards1 sub = Some w)"
    using LK lr by (auto simp: Let_def split: option.splits prod.splits sum.splits)
  define answer1 where "answer1 = (answer \<or> entry_matches wildcards1 ?sub ip)"
  have R: "wildcard_loop e root ip labels k answer1 wildcards1 s1 = (Inr (answer', wildcards'), s')"
    using P lr C1 unfolding answer1_def entry_matches_def
    by (auto split: if_splits option.splits)
  note IH = Suc.IH[OF R]
  have M: "wildcards' ?sub = Some w" using IH C1 by blast
  have E: "entry_matches wildcards' ?sub ip = entry_matches wildcards1 ?sub ip"
    using M C1 by (simp add: entry_matches_def)
  have mono: "\<forall>sub w. wildcards sub = Some w \<longrightarrow> wildcards' sub = Some w"
    using IH C1 by blast
  have probed: "\<forall>i. 1 \<le> i \<and> i \<le> Suc k \<longrightarrow> wildcards' (Join (drop i labels) ''.'') \<noteq> None"
    using IH M by (metis le_Suc_eq option.distinct(1))
  have "answer' \<longleftrightarrow> answer \<or>
        (\<exists>i. 1 \<le> i \<and> i \<le> Suc k \<and> entry_matches wildcards' (Join (drop i labels) ''.'') ip)"
  proof
    assume answer'
    with IH have "answer1 \<or> (\<exists>i. 1 \<le> i \<and> i \<le> k \<and> entry_matches wildcards' (Join (drop i labels) ''.'') ip)"
      by blast
    then show "answer \<or>
        (\<exists>i. 1 \<le> i \<and> i \<le> Suc k \<and> entry_matches wildcards' (Join (drop i labels) ''.'') ip)"
      unfolding answer1_def using E by (metis le_Suc_eq le_add1 plus_1_eq_Suc)
  next
    assume H: "answer \<or>
        (\<exists>i. 1 \<le> i \<and> i \<le> Suc k \<and> entry_matches wildcards' (Join (drop i labels) ''.'') ip)"
    have "answer1 \<or> (\<exists>i. 1 \<le> i \<and> i \<le> k \<and> entry_matches wildcards' (Join (drop i labels) ''.'') ip)"
      using H unfolding answer1_def using E by (metis le_Suc_eq)
    with IH show answer' by blast
  qed
  with mono probed show ?case by blast
qed

lemma Split_nonempty: "Split s sep \<noteq> []"
  by (induction s) (auto split: list.splits)

lemma Split_append_sep: "Split (a @ sep # b) sep = Split a sep @ Split b sep"
proof (induction a)
  case Nil
  then show ?case by simp
next
  case (Cons c cs)
  then show ?case using Split_nonempty[of cs sep] by (auto split: list.splits)
qed

lemma Join_Split: "Join (Split s CHR ''.'') ''.'' = s"
proof (induction s)
  case Nil
  then show ?case by simp
next
  case (Cons c cs)
  show ?case
  proof (cases "c = CHR ''.''")
    case True
    obtain f fs where "Split cs CHR ''.'' = f # fs"
      using Split_nonempty[of cs] by (cases "Split cs CHR ''.''") auto
    with Cons True show ?thesis by simp
  next
    case False
    obtain f fs where S: "Split cs CHR ''.'' = f # fs"
      using Split_nonempty[of cs] by (cases "Split cs CHR ''.''") auto
    with Cons have "cs = Join (f # fs) ''.''" by simp
    with S False show ?thesis by (cases fs) simp_all
  qed
qed

lemma path_subs_apex:
  assumes "name = pre @ ''.'' @ root"
  shows "root \<in> set (path_subs name root)"
proof -
  let ?a = "Split pre CHR ''.''" and ?r = "Split root CHR ''.''"
  have S: "Split name CHR ''.'' = ?a @ ?r" using assms Split_append_sep[of pre "CHR ''.''" root] by simp
  have a: "1 \<le> length ?a" using Split_nonempty[of pre] by (cases ?a) auto
  have "Join (drop (length ?a) (Split name CHR ''.'')) ''.'' = root"
    unfolding S by (simp add: Join_Split)
  moreover have "length ?a \<in> set (rev [1..<Suc (length (Split name CHR ''.'') - length ?r)])"
    unfolding S using a by simp
  ultimately show ?thesis unfolding path_subs_def by (metis (no_types, lifting) image_eqI set_map)
qed

lemma path_subs_spec:
  "set (path_subs name root) =
     set (spec_strict_subs name root) \<union>
     (if length (Split name CHR ''.'') > length (Split root CHR ''.'')
      then {Join (drop (length (Split name CHR ''.'') - length (Split root CHR ''.''))
                    (Split name CHR ''.'')) ''.''}
      else {})"
proof -
  let ?n = "length (Split name CHR ''.'') - length (Split root CHR ''.'')"
  show ?thesis
  proof (cases "length (Split name CHR ''.'') > length (Split root CHR ''.'')")
    case True
    then have "set [1..<Suc ?n] = set [1..<?n] \<union> {?n}" by auto
    then show ?thesis using True unfolding path_subs_def spec_strict_subs_def
      by (simp del: upt_Suc add: image_Un)
  next
    case False
    then show ?thesis unfolding path_subs_def spec_strict_subs_def by simp
  qed
qed

text \<open>
  Claim C2, amended. When \<^verbatim>\<open>matchesWildcard\<close> returns, its decision is true exactly when
  some suffix on the label path has, in the cache after the call, a Positive entry
  whose answer set contains the address. The path runs from the immediate parent of
  the name down to and including the suffix with as many labels as the apex: the
  suffixes strictly between the name and the apex, and the apex-level suffix as well,
  which is the apex itself when the name ends in a dot followed by the apex. Every
  suffix of the path has an entry in the cache after the call.
\<close>

theorem matchesWildcard_path:
  assumes "matchesWildcard e name root ip wildcards s = (Inr (answer, wildcards'), s')"
  shows "(answer \<longleftrightarrow> list_ex (\<lambda>sub. entry_matches wildcards' sub ip) (path_subs name root))
       \<and> (\<forall>sub \<in> set (path_subs name root). wildcards' sub \<noteq> None)
       \<and> set (path_subs name root) =
           set (spec_strict_subs name root) \<union>
           (if length (Split name CHR ''.'') > length (Split root CHR ''.'')
            then {Join (drop (length (Split name CHR ''.'') - length (Split root CHR ''.''))
                          (Split name CHR ''.'')) ''.''}
            else {})
       \<and> (\<forall>pre. name = pre @ ''.'' @ root \<longrightarrow> root \<in> set (path_subs name root))"
proof -
  let ?labels = "Split name CHR ''.''"
  let ?n = "length ?labels - length (Split root CHR ''.'')"
  from assms have L: "wildcard_loop e root ip ?labels ?n False wildcards s =
      (Inr (answer, wildcards'), s')"
    by (simp add: matchesWildcard_def Let_def)
  note W = wildcard_loop_spec[OF L]
  have idx: "set (rev [1..<Suc ?n]) = {i. 1 \<le> i \<and> i \<le> ?n}" by auto
  have a: "answer \<longleftrightarrow> list_ex (\<lambda>sub. entry_matches wildcards' sub ip) (path_subs name root)"
    using W unfolding path_subs_def list_ex_iff set_map idx by auto
  have b: "\<forall>sub \<in> set (path_subs name root). wildcards' sub \<noteq> None"
    using W unfolding path_subs_def set_map idx by auto
  show ?thesis using a b path_subs_spec[of name root] path_subs_apex[of name _ root] by blast
qed

theorem matchesWildcard_path_witness:
  "list_ex (\<lambda>sub. entry_matches cache_wild sub ''10.0.0.1'') (path_subs ''foo.wild.com'' ''wild.com'')
   \<and> ''wild.com'' \<in> set (path_subs ''foo.wild.com'' ''wild.com'')"
proof -
  have run: "matchesWildcard env_wild ''foo.wild.com'' ''wild.com'' ''10.0.0.1'' cache_wild world0 =
      (Inr (True, cache_wild), world0)"
    by (simp add: matchesWildcard_def cache_wild_def Let_def)
  from matchesWildcard_path[OF run] show ?thesis by simp
qed

text \<open>
  Claim C2 as stated fails: for \<^verbatim>\<open>foo.wild.com\<close> under the apex \<^verbatim>\<open>wild.com\<close>, whose cached
  entry is Positive with the address, the decision is true although no suffix lies
  strictly between the name and the apex.
\<close>

theorem matchesWildcard_apex_counterexample:
  "matchesWildcard env_wild ''foo.wild.com'' ''wild.com'' ''10.0.0.1'' cache_wild world0 =
      (Inr (True, cache_wild), world0)
   \<and> spec_strict_subs ''foo.wild.com'' ''wild.com'' = []
   \<and> \<not> spec_wildcard_match cache_wild ''foo.wild.com'' ''wild.com'' ''10.0.0.1''"
  by (simp add: matchesWildcard_def cache_wild_def Let_def spec_strict_subs_def
      spec_wildcard_match_def)



section \<open>Wildcard detection\<close>








lemma issued_same: "queries s' = queries s \<Longrightarrow> issued s s' = []"
  by (simp add: issued_def)



















section \<open>The per-resolution task\<close>













end
